theory Spec2Isabelle
  imports Main "HOL-Library.Word"
begin

unbundle bit_operations_syntax

section \<open>The tokenizer of the code-completion parser (tokenizer.h)\<close>

text \<open>
  The class \<open>Tokenizer\<close> is embedded as a record of its data members and one HOL function
  per member function. \<open>wxChar\<close> is a character (the buffers considered are ASCII text),
  \<open>wxString\<close> a list of characters. Buffer offsets (\<open>unsigned int\<close> in the source) are
  natural numbers below \<open>2 ^ 32\<close>, and where the source adds to an offset without a guard
  the wrap-around is written out. The line and nesting counters
  are 32-bit words, so that their increments and decrements wrap as those of
  \<open>unsigned int\<close> do. The members \<open>m_FileIdx\<close>, \<open>m_Loader\<close>, \<open>m_ExpressionResult\<close>,
  \<open>m_NextTokenDoc\<close> and \<open>m_LastTokenIdx\<close> are used by no function modelled here and are
  left out of the record.
\<close>

type_synonym wxChar = char
type_synonym wxString = string
type_synonym uint = "32 word"

subsection \<open>enum TokenizerState\<close>

text \<open>The enumerators are bit masks that callers combine; a state is its numeric value.\<close>

type_synonym TokenizerState = "32 word"

definition tsSkipEqual :: TokenizerState where "tsSkipEqual = 0x0001"
definition tsSkipQuestion :: TokenizerState where "tsSkipQuestion = 0x0002"
definition tsSkipSubScrip :: TokenizerState where "tsSkipSubScrip = 0x0004"
definition tsSingleAngleBrace :: TokenizerState where "tsSingleAngleBrace = 0x0008"
definition tsReadRawExpression :: TokenizerState where "tsReadRawExpression = 0x0010"
definition tsSkipNone :: TokenizerState where "tsSkipNone = 0x1000"
definition tsSkipUnWanted :: TokenizerState where
  "tsSkipUnWanted = tsSkipEqual OR tsSkipQuestion OR tsSkipSubScrip"
definition tsTemplateArgument :: TokenizerState where
  "tsTemplateArgument = tsSkipUnWanted OR tsSingleAngleBrace"

subsection \<open>enum PreprocessorType\<close>

datatype PreprocessorType =
  ptIf | ptIfdef | ptIfndef | ptElif | ptElifdef | ptElifndef | ptElse | ptEndif | ptOthers

subsection \<open>The external token store\<close>

text \<open>
  Modelled from the spec: \<open>Token\<close> and \<open>TokenTree\<close> are declared in token.h, which is not
  part of the sources at hand. Section 6 (token store lookup): a macro definition carries
  whether it is function-like, its formal parameter names and its replacement-body text;
  the store is a lookup from a name to an optional definition, and the tokenizer never
  mutates it.
\<close>

record Token =
  macro_name :: wxString
  is_function_like :: bool
  formal_parameters :: "wxString list"
  replacement_body :: wxString

type_synonym TokenTree = "wxString \<Rightarrow> Token option"

subsection \<open>struct TokenizerOptions, struct ExpandedMacro, class Tokenizer\<close>

record TokenizerOptions =
  wantPreprocessor :: bool
  storeDocumentation :: bool

record ExpandedMacro =
  m_Begin :: nat
  m_End :: nat
  m_Macro :: Token

record Tokenizer =
  m_TokenizerOptions :: TokenizerOptions
  m_TokenTree :: TokenTree
  m_Filename :: wxString
  m_Buffer :: wxString
  m_BufferLen :: nat
  m_Lex :: wxString
  m_Token :: wxString
  m_TokenIndex :: nat
  m_LineNumber :: uint
  m_NestLevel :: uint
  m_UndoTokenIndex :: nat
  m_UndoLineNumber :: uint
  m_UndoNestLevel :: uint
  m_PeekAvailable :: bool
  m_PeekToken :: wxString
  m_PeekTokenIndex :: nat
  m_PeekLineNumber :: uint
  m_PeekNestLevel :: uint
  m_SavedTokenIndex :: nat
  m_SavedLineNumber :: uint
  m_SavedNestingLevel :: uint
  m_IsOK :: bool
  m_State :: TokenizerState
  m_ExpandedMacros :: "ExpandedMacro list"

subsection \<open>Member functions defined inline in tokenizer.h\<close>

definition SetTokenizerOption :: "bool \<Rightarrow> bool \<Rightarrow> Tokenizer \<Rightarrow> Tokenizer" where
  "SetTokenizerOption wantPreproc storeDoc s =
     s\<lparr>m_TokenizerOptions := \<lparr>wantPreprocessor = wantPreproc, storeDocumentation = storeDoc\<rparr>\<rparr>"

definition SetState :: "TokenizerState \<Rightarrow> Tokenizer \<Rightarrow> Tokenizer" where
  "SetState state s = s\<lparr>m_State := state\<rparr>"

definition GetState :: "Tokenizer \<Rightarrow> TokenizerState" where
  "GetState s = m_State s"

definition IsSkippingUnwantedTokens :: "Tokenizer \<Rightarrow> bool" where
  "IsSkippingUnwantedTokens s = (m_State s = tsSkipUnWanted)"

definition GetFilename :: "Tokenizer \<Rightarrow> wxString" where
  "GetFilename s = m_Filename s"

definition GetLineNumber :: "Tokenizer \<Rightarrow> uint" where
  "GetLineNumber s = m_LineNumber s"

definition GetNestingLevel :: "Tokenizer \<Rightarrow> uint" where
  "GetNestingLevel s = m_NestLevel s"

definition SaveNestingLevel :: "Tokenizer \<Rightarrow> Tokenizer" where
  "SaveNestingLevel s = s\<lparr>m_SavedNestingLevel := m_NestLevel s\<rparr>"

definition RestoreNestingLevel :: "Tokenizer \<Rightarrow> Tokenizer" where
  "RestoreNestingLevel s = s\<lparr>m_NestLevel := m_SavedNestingLevel s\<rparr>"

definition IsOK :: "Tokenizer \<Rightarrow> bool" where
  "IsOK s = m_IsOK s"

definition IsEOF :: "Tokenizer \<Rightarrow> bool" where
  "IsEOF s = (m_TokenIndex s \<ge> m_BufferLen s)"

definition NotEOF :: "Tokenizer \<Rightarrow> bool" where
  "NotEOF s = (m_TokenIndex s < m_BufferLen s)"

text \<open>
  \<open>wxString::GetChar\<close> asserts that the index is in range; \<open>None\<close> is the failed
  assertion.
\<close>

definition GetChar :: "wxString \<Rightarrow> nat \<Rightarrow> wxChar option" where
  "GetChar str n = (if n < length str then Some (str ! n) else None)"

definition CurrentChar :: "Tokenizer \<Rightarrow> wxChar option" where
  "CurrentChar s =
     (if m_TokenIndex s < m_BufferLen s then GetChar (m_Buffer s) (m_TokenIndex s)
      else Some (CHR 0x00))"

text \<open>
  \<open>m_TokenIndex++\<close> and \<open>m_TokenIndex + 1\<close> are \<open>unsigned int\<close> arithmetic: the sum
  wraps to 0 at \<open>2 ^ 32\<close>.
\<close>

definition CurrentCharMoveNext :: "Tokenizer \<Rightarrow> wxChar option \<times> Tokenizer" where
  "CurrentCharMoveNext s =
     (CurrentChar s, s\<lparr>m_TokenIndex := (m_TokenIndex s + 1) mod 2 ^ 32\<rparr>)"

definition NextChar :: "Tokenizer \<Rightarrow> wxChar option" where
  "NextChar s =
     (if (m_TokenIndex s + 1) mod 2 ^ 32 \<ge> m_BufferLen s then Some (CHR 0x00)
      else GetChar (m_Buffer s) ((m_TokenIndex s + 1) mod 2 ^ 32))"

definition PreviousChar :: "Tokenizer \<Rightarrow> wxChar option" where
  "PreviousChar s =
     (if m_TokenIndex s > 0 \<and> m_BufferLen s > 0 then GetChar (m_Buffer s) (m_TokenIndex s - 1)
      else Some (CHR 0x00))"

fun CharInString :: "wxChar \<Rightarrow> wxString \<Rightarrow> bool" where
  "CharInString ch [] = False"
| "CharInString ch (c # chars) = (if ch = c then True else CharInString ch chars)"

definition IsBackslashBeforeEOL :: "Tokenizer \<Rightarrow> bool option" where
  "IsBackslashBeforeEOL s =
     (case PreviousChar s of
        None \<Rightarrow> None
      | Some last' \<Rightarrow>
          if last' = CHR 0x0D \<and> m_TokenIndex s \<ge> 2
          then (case GetChar (m_Buffer s) (m_TokenIndex s - 2) of
                  None \<Rightarrow> None
                | Some c \<Rightarrow> Some (c = CHR 0x5C))
          else Some (last' = CHR 0x5C))"

subsection \<open>Initialisation\<close>

text \<open>
  Modelled from the spec: \<open>BaseInit\<close> (tokenizer.h: initialize some member variables;
  the body is not part of the sources at hand). Section 4.1: cursor, line and nesting are
  reset to a valid starting state; the line number is 1-based (tokenizer.h); nothing is
  peeked, nothing is expanded, and the instance is not usable before a buffer is given.
\<close>

definition BaseInit :: "TokenTree \<Rightarrow> Tokenizer" where
  "BaseInit tree =
     \<lparr>m_TokenizerOptions = \<lparr>wantPreprocessor = True, storeDocumentation = False\<rparr>,
      m_TokenTree = tree, m_Filename = [], m_Buffer = [], m_BufferLen = 0,
      m_Lex = [], m_Token = [], m_TokenIndex = 0, m_LineNumber = 1, m_NestLevel = 0,
      m_UndoTokenIndex = 0, m_UndoLineNumber = 1, m_UndoNestLevel = 0,
      m_PeekAvailable = False, m_PeekToken = [], m_PeekTokenIndex = 0,
      m_PeekLineNumber = 0, m_PeekNestLevel = 0,
      m_SavedTokenIndex = 0, m_SavedLineNumber = 1, m_SavedNestingLevel = 0,
      m_IsOK = False, m_State = tsSkipNone, m_ExpandedMacros = []\<rparr>"

text \<open>
  Modelled from the spec: \<open>InitFromBuffer\<close> (declared in tokenizer.h, body not part of
  the sources at hand). Section 4.1: \<open>InitFromBuffer(text, originLabel, startLine)\<close>
  populates the buffer, resets cursor, line and nesting, and fails when no content could
  be obtained; \<open>initLineNumber\<close> is the start line of the buffer (tokenizer.h).
\<close>

definition InitFromBuffer :: "TokenTree \<Rightarrow> wxString \<Rightarrow> wxString \<Rightarrow> uint \<Rightarrow> Tokenizer" where
  "InitFromBuffer tree buffer fileOfBuffer initLineNumber =
     (BaseInit tree)\<lparr>m_Filename := fileOfBuffer, m_Buffer := buffer,
        m_BufferLen := length buffer, m_LineNumber := initLineNumber,
        m_IsOK := (buffer \<noteq> [])\<rparr>"


section \<open>The search utility (KMP)\<close>

text \<open>
  \<open>KMP_Find\<close> and \<open>KMP_GetNextVal\<close> are declared in tokenizer.h; their bodies are not
  part of the sources at hand. The C arrays are lists: a NUL-terminated \<open>wxChar\<close> array is
  the list of the characters before the terminator, and the table \<open>int next[]\<close> is a list
  of integers. A read or a write outside an array is the result \<open>None\<close>, and so is a
  loop that does not return.
\<close>

definition ArrayGet :: "int list \<Rightarrow> int \<Rightarrow> int option" where
  "ArrayGet arr i = (if 0 \<le> i \<and> nat i < length arr then Some (arr ! nat i) else None)"

definition ArraySet :: "int list \<Rightarrow> nat \<Rightarrow> int \<Rightarrow> int list option" where
  "ArraySet arr i v = (if i < length arr then Some (arr[i := v]) else None)"

text \<open>
  Modelled from the spec: the loop of \<open>KMP_GetNextVal\<close>, the precomputed failure function
  over the pattern of section 4.6. With \<open>next[0] = -1\<close>, the entry \<open>next[j]\<close> for
  \<open>j > 0\<close> becomes the length of the longest proper prefix of the first \<open>j\<close> pattern
  characters that is also a suffix of them; \<open>k\<close> is the candidate length, \<open>-1\<close> when
  there is none.
\<close>

partial_function (option) KMP_GetNextVal_loop ::
  "wxString \<Rightarrow> nat \<Rightarrow> int \<Rightarrow> int list \<Rightarrow> int list option" where
  "KMP_GetNextVal_loop pattern j k next =
     (if j + 1 < length pattern then
        (if k = -1 \<or> GetChar pattern j = GetChar pattern (nat k) then
           (case ArraySet next (j + 1) (k + 1) of
              None \<Rightarrow> None
            | Some next' \<Rightarrow> KMP_GetNextVal_loop pattern (j + 1) (k + 1) next')
         else
           (case ArrayGet next k of
              None \<Rightarrow> None
            | Some k' \<Rightarrow> KMP_GetNextVal_loop pattern j k' next))
      else Some next)"

declare KMP_GetNextVal_loop.simps [code]

text \<open>
  Modelled from the spec: \<open>KMP_GetNextVal(pattern, next)\<close> (tokenizer.h: just for KMP
  find), which fills the table for the whole pattern.
\<close>

definition KMP_GetNextVal :: "wxString \<Rightarrow> int list option" where
  "KMP_GetNextVal pattern =
     (if pattern = [] then Some []
      else KMP_GetNextVal_loop pattern 0 (-1) ((replicate (length pattern) 0)[0 := -1]))"

text \<open>
  Modelled from the spec: the search loop of \<open>KMP_Find\<close>, the standard
  Knuth-Morris-Pratt scan of section 4.6: \<open>i\<close> walks the text once, \<open>j\<close> is the number
  of pattern characters matched so far, and a mismatch falls back to \<open>next[j]\<close>. The
  result is the first matching offset or the sentinel \<open>-1\<close> (tokenizer.h: if find
  nothing, return -1).
\<close>

partial_function (option) KMP_Find_loop ::
  "wxString \<Rightarrow> wxString \<Rightarrow> int list \<Rightarrow> nat \<Rightarrow> int \<Rightarrow> int option" where
  "KMP_Find_loop text pattern next i j =
     (if i < length text \<and> j < int (length pattern) then
        (if j = -1 \<or> GetChar text i = GetChar pattern (nat j) then
           KMP_Find_loop text pattern next (i + 1) (j + 1)
         else
           (case ArrayGet next j of
              None \<Rightarrow> None
            | Some j' \<Rightarrow> KMP_Find_loop text pattern next i j'))
      else if j = int (length pattern) then Some (int i - j)
      else Some (-1))"

declare KMP_Find_loop.simps [code]

text \<open>
  Modelled from the spec: \<open>KMP_Find(text, pattern, patternLen)\<close>. The third parameter
  is the length of the pattern, the size of the table; a call with another value is
  outside the contract, and its result is \<open>None\<close>.
\<close>

definition KMP_Find :: "wxString \<Rightarrow> wxString \<Rightarrow> int \<Rightarrow> int option" where
  "KMP_Find text pattern patternLen =
     (if patternLen \<noteq> int (length pattern) then None
      else case KMP_GetNextVal pattern of
             None \<Rightarrow> None
           | Some next \<Rightarrow> KMP_Find_loop text pattern next 0 0)"

subsection \<open>The naive substring scan of the spec\<close>

text \<open>
  Section 8 compares \<open>KMP_Find\<close> with a naive substring scan. This is the scan, written
  from the spec's words and not from the program: try each offset from left to right and
  return the first one at which the pattern is a prefix of the rest of the text, or
  \<open>-1\<close> when there is none.
\<close>

fun match_here :: "wxString \<Rightarrow> wxString \<Rightarrow> bool" where
  "match_here text [] = True"
| "match_here [] (p # ps) = False"
| "match_here (c # cs) (p # ps) = (c = p \<and> match_here cs ps)"

fun naive_scan :: "wxString \<Rightarrow> wxString \<Rightarrow> nat \<Rightarrow> int" where
  "naive_scan [] pattern s = (if match_here [] pattern then int s else -1)"
| "naive_scan (c # cs) pattern s =
     (if match_here (c # cs) pattern then int s else naive_scan cs pattern (s + 1))"

definition naive_find :: "wxString \<Rightarrow> wxString \<Rightarrow> int" where
  "naive_find text pattern = naive_scan text pattern 0"

text \<open>The pattern occurs in the text at offset \<open>s\<close>.\<close>

definition occurs_at :: "wxString \<Rightarrow> wxString \<Rightarrow> nat \<Rightarrow> bool" where
  "occurs_at text pattern s \<longleftrightarrow>
     s + length pattern \<le> length text \<and> (\<forall>x<length pattern. text ! (s + x) = pattern ! x)"

section \<open>Splitting the arguments of a macro usage\<close>

text \<open>
  \<open>SplitArguments\<close> and the scanning functions it needs are declared in tokenizer.h;
  their bodies are not part of the sources at hand, and each is modelled from the spec and
  from its comment in tokenizer.h. They read the buffer through the inline functions
  \<open>CurrentChar\<close> and \<open>NextChar\<close>, and none of them changes the buffer.
\<close>

text \<open>The library function \<open>wxIsspace\<close> on ASCII: the space and the characters 9 to 13.\<close>

definition wxIsspace :: "wxChar \<Rightarrow> bool" where
  "wxIsspace c = (let n = (of_char c :: nat) in n = 32 \<or> (9 \<le> n \<and> n \<le> 13))"

text \<open>
  Modelled from the spec: \<open>MoveToNextChar\<close> (tokenizer.h: move to the next character in
  the buffer). The cursor stays within the buffer (section 3), so the increment is guarded
  and cannot wrap; the line counter counts the line feeds the cursor has moved past, and
  the result tells whether a character is left.
\<close>

definition MoveToNextChar :: "Tokenizer \<Rightarrow> bool \<times> Tokenizer" where
  "MoveToNextChar s =
     (if IsEOF s then (False, s)
      else
        let s1 = (if CurrentChar s = Some (CHR 0x0A)
                  then s\<lparr>m_LineNumber := m_LineNumber s + 1\<rparr> else s);
            s2 = s1\<lparr>m_TokenIndex := m_TokenIndex s + 1\<rparr>
        in (NotEOF s2, s2))"

text \<open>
  Modelled from the spec: section 4.2, a backslash immediately followed by a line break
  (LF or CRLF) is a logical line continuation.
\<close>

definition IsLineContinuation :: "Tokenizer \<Rightarrow> bool" where
  "IsLineContinuation s =
     (CurrentChar s = Some (CHR 0x5C) \<and>
      (NextChar s = Some (CHR 0x0A) \<or>
       (NextChar s = Some (CHR 0x0D) \<and> m_TokenIndex s + 2 < m_BufferLen s \<and>
        GetChar (m_Buffer s) (m_TokenIndex s + 2) = Some (CHR 0x0A))))"

text \<open>
  Modelled from the spec: the loop of \<open>SkipWhiteSpace\<close> (tokenizer.h: skip any tab,
  white-space). Section 4.2: a backslash immediately followed by a line break counts as
  whitespace.
\<close>

function SkipWhiteSpace_loop :: "Tokenizer \<Rightarrow> Tokenizer" where
  "SkipWhiteSpace_loop s =
     (if NotEOF s \<and>
         ((case CurrentChar s of None \<Rightarrow> False | Some c \<Rightarrow> wxIsspace c) \<or> IsLineContinuation s)
      then SkipWhiteSpace_loop (snd (MoveToNextChar s))
      else s)"
  by pat_completeness auto
termination
  by (relation "measure (\<lambda>s. m_BufferLen s - m_TokenIndex s)")
     (auto simp: MoveToNextChar_def NotEOF_def IsEOF_def Let_def)

declare SkipWhiteSpace_loop.simps [simp del]

text \<open>
  Modelled from the spec: \<open>SkipWhiteSpace\<close>; the result tells whether the cursor moved.
\<close>

definition SkipWhiteSpace :: "Tokenizer \<Rightarrow> bool \<times> Tokenizer" where
  "SkipWhiteSpace s =
     (let s' = SkipWhiteSpace_loop s in (m_TokenIndex s' \<noteq> m_TokenIndex s, s'))"

text \<open>
  Modelled from the spec: the scan for the end of a block comment; it stops at the closing
  delimiter or at the end of the buffer, which section 7 takes as the implicit terminator.
\<close>

function SkipToBlockCommentEnd :: "Tokenizer \<Rightarrow> Tokenizer" where
  "SkipToBlockCommentEnd s =
     (if NotEOF s \<and> \<not> (CurrentChar s = Some (CHR ''*'') \<and> NextChar s = Some (CHR ''/''))
      then SkipToBlockCommentEnd (snd (MoveToNextChar s))
      else s)"
  by pat_completeness auto
termination
  by (relation "measure (\<lambda>s. m_BufferLen s - m_TokenIndex s)")
     (auto simp: MoveToNextChar_def NotEOF_def IsEOF_def Let_def)

declare SkipToBlockCommentEnd.simps [simp del]

text \<open>
  Modelled from the spec: the loop of \<open>SkipToInlineCommentEnd\<close> (tokenizer.h: skip to the
  end of the C++ style comment). Section 4.2: a line comment stops with the cursor at the
  line terminator, not past it.
\<close>

function SkipToInlineCommentEnd_loop :: "Tokenizer \<Rightarrow> Tokenizer" where
  "SkipToInlineCommentEnd_loop s =
     (if NotEOF s \<and> CurrentChar s \<noteq> Some (CHR 0x0A)
      then SkipToInlineCommentEnd_loop (snd (MoveToNextChar s))
      else s)"
  by pat_completeness auto
termination
  by (relation "measure (\<lambda>s. m_BufferLen s - m_TokenIndex s)")
     (auto simp: MoveToNextChar_def NotEOF_def IsEOF_def Let_def)

declare SkipToInlineCommentEnd_loop.simps [simp del]

text \<open>
  Modelled from the spec: \<open>SkipToInlineCommentEnd\<close>; the result tells whether a character
  is left.
\<close>

definition SkipToInlineCommentEnd :: "Tokenizer \<Rightarrow> bool \<times> Tokenizer" where
  "SkipToInlineCommentEnd s = (let s' = SkipToInlineCommentEnd_loop s in (NotEOF s', s'))"

text \<open>
  Modelled from the spec: \<open>SkipComment\<close> (tokenizer.h: returns true if the cursor moved;
  after a C comment the cursor is at the character after the closing slash, after a C++
  comment it is at the line feed). The capture of documentation comments for the external
  sink (section 6) does not change the cursor and is left out.
\<close>

definition SkipComment :: "Tokenizer \<Rightarrow> bool \<times> Tokenizer" where
  "SkipComment s =
     (if CurrentChar s = Some (CHR ''/'') \<and> NextChar s = Some (CHR ''*'') then
        let s1 = snd (MoveToNextChar (snd (MoveToNextChar s)));
            s2 = SkipToBlockCommentEnd s1;
            s3 = snd (MoveToNextChar (snd (MoveToNextChar s2)))
        in (True, s3)
      else if CurrentChar s = Some (CHR ''/'') \<and> NextChar s = Some (CHR ''/'') then
        (True, snd (SkipToInlineCommentEnd s))
      else (False, s))"

text \<open>
  Modelled from the spec: the skipping of whitespace and comments in front of the opening
  parenthesis (section 4.4, step 2), the loop
  \<^verbatim>\<open>while (SkipWhiteSpace() || SkipComment());\<close>
  which ends when neither function moved the cursor.
\<close>

function SkipWhiteSpaceAndComments :: "Tokenizer \<Rightarrow> Tokenizer" where
  "SkipWhiteSpaceAndComments s =
     (let (moved1, s1) = SkipWhiteSpace s;
          (moved2, s2) = SkipComment s1
      in if moved1 \<or> moved2 then SkipWhiteSpaceAndComments s2 else s2)"
  by pat_completeness auto
termination
proof (relation "measure (\<lambda>s. m_BufferLen s - m_TokenIndex s)")
  show "wf (measure (\<lambda>s. m_BufferLen s - m_TokenIndex s))"
    by simp
next
  have mv: "m_BufferLen (snd (MoveToNextChar s)) = m_BufferLen s
      \<and> m_TokenIndex s \<le> m_TokenIndex (snd (MoveToNextChar s))
      \<and> (m_TokenIndex s \<le> m_BufferLen s
           \<longrightarrow> m_TokenIndex (snd (MoveToNextChar s)) \<le> m_BufferLen s)" for s
    by (auto simp: MoveToNextChar_def IsEOF_def Let_def)
  have st: "m_TokenIndex s < m_TokenIndex (snd (MoveToNextChar s))"
    if "CurrentChar s = Some (CHR ''/'')" for s
    using that
    by (auto simp: MoveToNextChar_def IsEOF_def Let_def CurrentChar_def split: if_splits)
  have ws: "m_BufferLen (SkipWhiteSpace_loop s) = m_BufferLen s
      \<and> m_TokenIndex s \<le> m_TokenIndex (SkipWhiteSpace_loop s)
      \<and> (m_TokenIndex s \<le> m_BufferLen s
           \<longrightarrow> m_TokenIndex (SkipWhiteSpace_loop s) \<le> m_BufferLen s)" for s
  proof (induction s rule: SkipWhiteSpace_loop.induct)
    case (1 s)
    show ?case
    proof (cases "NotEOF s \<and>
         ((case CurrentChar s of None \<Rightarrow> False | Some c \<Rightarrow> wxIsspace c) \<or> IsLineContinuation s)")
      case True
      then have "SkipWhiteSpace_loop s = SkipWhiteSpace_loop (snd (MoveToNextChar s))"
        by (subst SkipWhiteSpace_loop.simps) simp
      with 1 [OF True] mv [of s] show ?thesis by simp
    next
      case False
      then have "SkipWhiteSpace_loop s = s"
        by (subst SkipWhiteSpace_loop.simps) auto
      then show ?thesis by simp
    qed
  qed
  have bc: "m_BufferLen (SkipToBlockCommentEnd s) = m_BufferLen s
      \<and> m_TokenIndex s \<le> m_TokenIndex (SkipToBlockCommentEnd s)
      \<and> (m_TokenIndex s \<le> m_BufferLen s
           \<longrightarrow> m_TokenIndex (SkipToBlockCommentEnd s) \<le> m_BufferLen s)" for s
  proof (induction s rule: SkipToBlockCommentEnd.induct)
    case (1 s)
    show ?case
    proof (cases "NotEOF s \<and>
        \<not> (CurrentChar s = Some (CHR ''*'') \<and> NextChar s = Some (CHR ''/''))")
      case True
      then have "SkipToBlockCommentEnd s = SkipToBlockCommentEnd (snd (MoveToNextChar s))"
        by (subst SkipToBlockCommentEnd.simps) simp
      with 1 [OF True] mv [of s] show ?thesis by simp
    next
      case False
      then have "SkipToBlockCommentEnd s = s"
        by (subst SkipToBlockCommentEnd.simps) auto
      then show ?thesis by simp
    qed
  qed
  have lc: "m_BufferLen (SkipToInlineCommentEnd_loop s) = m_BufferLen s
      \<and> m_TokenIndex s \<le> m_TokenIndex (SkipToInlineCommentEnd_loop s)
      \<and> (m_TokenIndex s \<le> m_BufferLen s
           \<longrightarrow> m_TokenIndex (SkipToInlineCommentEnd_loop s) \<le> m_BufferLen s)" for s
  proof (induction s rule: SkipToInlineCommentEnd_loop.induct)
    case (1 s)
    show ?case
    proof (cases "NotEOF s \<and> CurrentChar s \<noteq> Some (CHR 0x0A)")
      case True
      then have "SkipToInlineCommentEnd_loop s
          = SkipToInlineCommentEnd_loop (snd (MoveToNextChar s))"
        by (subst SkipToInlineCommentEnd_loop.simps) simp
      with 1 [OF True] mv [of s] show ?thesis by simp
    next
      case False
      then have "SkipToInlineCommentEnd_loop s = s"
        by (subst SkipToInlineCommentEnd_loop.simps) auto
      then show ?thesis by simp
    qed
  qed
  have cm: "m_BufferLen (snd (SkipComment s)) = m_BufferLen s
      \<and> m_TokenIndex s \<le> m_TokenIndex (snd (SkipComment s))
      \<and> (m_TokenIndex s \<le> m_BufferLen s
           \<longrightarrow> m_TokenIndex (snd (SkipComment s)) \<le> m_BufferLen s)
      \<and> (fst (SkipComment s) \<longrightarrow> m_TokenIndex s < m_TokenIndex (snd (SkipComment s)))" for s
  proof (cases "CurrentChar s = Some (CHR ''/'') \<and> NextChar s = Some (CHR ''*'')")
    case True
    let ?a = "snd (MoveToNextChar s)"
    let ?b = "snd (MoveToNextChar ?a)"
    let ?c = "SkipToBlockCommentEnd ?b"
    let ?d = "snd (MoveToNextChar ?c)"
    let ?e = "snd (MoveToNextChar ?d)"
    from True have "SkipComment s = (True, ?e)"
      by (simp add: SkipComment_def Let_def)
    with mv [of s] mv [of ?a] bc [of ?b] mv [of ?c] mv [of ?d] st [of s] True
    show ?thesis by simp
  next
    case nb: False
    show ?thesis
    proof (cases "CurrentChar s = Some (CHR ''/'') \<and> NextChar s = Some (CHR ''/'')")
      case True
      with nb have eq: "SkipComment s = (True, SkipToInlineCommentEnd_loop s)"
        by (simp add: SkipComment_def SkipToInlineCommentEnd_def Let_def)
      from True have "NotEOF s \<and> CurrentChar s \<noteq> Some (CHR 0x0A)"
        by (auto simp: NotEOF_def CurrentChar_def split: if_splits)
      then have "SkipToInlineCommentEnd_loop s
          = SkipToInlineCommentEnd_loop (snd (MoveToNextChar s))"
        by (subst SkipToInlineCommentEnd_loop.simps) simp
      with lc [of "snd (MoveToNextChar s)"] st [of s] True
      have "m_TokenIndex s < m_TokenIndex (SkipToInlineCommentEnd_loop s)" by simp
      with eq lc [of s] show ?thesis by simp
    next
      case False
      with nb have "SkipComment s = (False, s)"
        by (simp add: SkipComment_def)
      then show ?thesis by simp
    qed
  qed
  fix s x moved1 s1 y moved2 s2
  assume "x = SkipWhiteSpace s" "(moved1, s1) = x" "y = SkipComment s1" "(moved2, s2) = y"
    and moved: "moved1 \<or> moved2"
  then have s1: "s1 = SkipWhiteSpace_loop s"
    and m1: "moved1 = (m_TokenIndex s1 \<noteq> m_TokenIndex s)"
    and s2: "s2 = snd (SkipComment s1)" and m2: "moved2 = fst (SkipComment s1)"
    by (auto simp: SkipWhiteSpace_def Let_def
        dest: arg_cong [where f = snd] arg_cong [where f = fst])
  have "m_TokenIndex s \<le> m_BufferLen s"
  proof (rule ccontr)
    assume "\<not> m_TokenIndex s \<le> m_BufferLen s"
    then have eof: "\<not> NotEOF s" and nul: "CurrentChar s = Some (CHR 0x00)"
      by (auto simp: NotEOF_def CurrentChar_def)
    from eof have "SkipWhiteSpace_loop s = s"
      by (subst SkipWhiteSpace_loop.simps) auto
    with s1 nul have "s1 = s" "SkipComment s1 = (False, s1)"
      by (simp_all add: SkipComment_def)
    with m1 m2 moved show False by simp
  qed
  with moved ws [of s] cm [of s1] s1 s2 m1 m2
  show "(s2, s) \<in> measure (\<lambda>s. m_BufferLen s - m_TokenIndex s)"
    by auto
qed

declare SkipWhiteSpaceAndComments.simps [simp del]

text \<open>
  Modelled from the spec: an argument is stored without the whitespace around it, as in
  the example of tokenizer.h, where \<^verbatim>\<open>ABC  ( xxx, yyy ) zzz\<close> gives the two items
  \<^verbatim>\<open>xxx\<close> and \<^verbatim>\<open>yyy\<close>.
\<close>

definition Trim :: "wxString \<Rightarrow> wxString" where
  "Trim str = rev (dropWhile wxIsspace (rev (dropWhile wxIsspace str)))"

text \<open>
  Modelled from the spec: the loop of \<open>SplitArguments\<close>, entered after the opening
  parenthesis. Section 4.4, step 2: the balanced argument list is captured and split on
  top-level commas; nested parentheses and brackets do not count as separators.
  \<open>closers\<close> is the stack of the closing delimiters that are still expected, the closing
  parenthesis of the argument list at its bottom; \<open>piece\<close> is the argument being read. A
  comma is a separator only when nothing but the argument list itself is open. A closing
  delimiter that is not the expected one, a failed read, and an argument list that is not
  closed before the end of the buffer are malformed (section 4.4, failure modes): the
  arguments are not found.
\<close>

function SplitArguments_loop ::
  "wxChar list \<Rightarrow> wxString \<Rightarrow> wxString list \<Rightarrow> Tokenizer \<Rightarrow> bool \<times> wxString list \<times> Tokenizer"
  where
  "SplitArguments_loop closers piece results s =
     (if IsEOF s then (False, [], s)
      else
        case CurrentChar s of
          None \<Rightarrow> (False, [], s)
        | Some c \<Rightarrow>
            let s' = snd (MoveToNextChar s)
            in if c = CHR ''('' then
                 SplitArguments_loop (CHR '')'' # closers) (piece @ [c]) results s'
               else if c = CHR ''['' then
                 SplitArguments_loop (CHR '']'' # closers) (piece @ [c]) results s'
               else if c = CHR '')'' \<or> c = CHR '']'' then
                 (case closers of
                    [] \<Rightarrow> (False, [], s')
                  | expected # outer \<Rightarrow>
                      if c \<noteq> expected then (False, [], s')
                      else if outer = [] then
                        (True, if Trim piece = [] then results else results @ [Trim piece], s')
                      else SplitArguments_loop outer (piece @ [c]) results s')
               else if c = CHR '','' \<and> length closers = 1 then
                 SplitArguments_loop closers [] (results @ [Trim piece]) s'
               else SplitArguments_loop closers (piece @ [c]) results s')"
  by pat_completeness auto
termination
  by (relation "measure (\<lambda>(closers, piece, results, s). m_BufferLen s - m_TokenIndex s)")
     (auto simp: MoveToNextChar_def IsEOF_def Let_def)

declare SplitArguments_loop.simps [simp del]

text \<open>
  Modelled from the spec: \<open>SplitArguments\<close>. tokenizer.h: the cursor points to the
  opening parenthesis or to some spaces before it; the results are the arguments between
  the parentheses; the function returns false if the arguments (the parenthesis) are not
  found. After a successful call the cursor is behind the closing parenthesis.
\<close>

definition SplitArguments :: "Tokenizer \<Rightarrow> bool \<times> wxString list \<times> Tokenizer" where
  "SplitArguments s =
     (let s1 = SkipWhiteSpaceAndComments s in
      if CurrentChar s1 \<noteq> Some (CHR ''('') then (False, [], s1)
      else SplitArguments_loop [CHR '')''] [] [] (snd (MoveToNextChar s1)))"

subsection \<open>Well-formed argument texts\<close>

text \<open>
  The text of one argument, read while the closing delimiters \<open>inner\<close> are expected
  inside the argument list: parentheses and brackets are balanced and properly nested,
  every closing delimiter is the expected one, and a comma occurs only inside an inner
  pair.
\<close>

fun arg_text :: "wxChar list \<Rightarrow> wxString \<Rightarrow> bool" where
  "arg_text inner [] = (inner = [])"
| "arg_text inner (c # cs) =
     (if c = CHR ''('' then arg_text (CHR '')'' # inner) cs
      else if c = CHR ''['' then arg_text (CHR '']'' # inner) cs
      else if c = CHR '')'' \<or> c = CHR '']'' then
        (case inner of [] \<Rightarrow> False | expected # outer \<Rightarrow> c = expected \<and> arg_text outer cs)
      else if c = CHR '','' then inner \<noteq> [] \<and> arg_text inner cs
      else arg_text inner cs)"

text \<open>The argument texts written one after the other, with a comma between two of them.\<close>

fun join_args :: "wxString list \<Rightarrow> wxString" where
  "join_args [] = []"
| "join_args [a] = a"
| "join_args (a # b # bs) = a @ CHR '','' # join_args (b # bs)"

text \<open>
  The arguments that the argument texts stand for: each without the whitespace around it,
  and the last one only if it is not empty.
\<close>

fun split_result :: "wxString list \<Rightarrow> wxString list" where
  "split_result [] = []"
| "split_result [a] = (if Trim a = [] then [] else [Trim a])"
| "split_result (a # b # bs) = Trim a # split_result (b # bs)"

text \<open>The state after the cursor has moved over the text \<open>tx\<close>.\<close>

definition advance :: "Tokenizer \<Rightarrow> wxString \<Rightarrow> Tokenizer" where
  "advance s tx =
     s\<lparr>m_LineNumber := m_LineNumber s + of_nat (count_list tx (CHR 0x0A)),
       m_TokenIndex := m_TokenIndex s + length tx\<rparr>"

subsection \<open>Invariants of the two KMP loops\<close>

text \<open>
  \<open>border p j k\<close>: the first \<open>k\<close> characters of \<open>p\<close> equal the \<open>k\<close> characters
  that end before position \<open>j\<close>. \<open>is_next p j n\<close>: \<open>n\<close> is the longest such length
  below \<open>j\<close>.
\<close>

definition border :: "wxString \<Rightarrow> nat \<Rightarrow> nat \<Rightarrow> bool" where
  "border p j k \<longleftrightarrow> k \<le> j \<and> j \<le> length p \<and> (\<forall>x<k. p ! x = p ! (j - k + x))"

definition is_next :: "wxString \<Rightarrow> nat \<Rightarrow> nat \<Rightarrow> bool" where
  "is_next p j n \<longleftrightarrow> n < j \<and> border p j n \<and> (\<forall>m. n < m \<and> m < j \<longrightarrow> \<not> border p j m)"

text \<open>The table is filled correctly up to index \<open>n\<close>.\<close>

definition table_ok :: "wxString \<Rightarrow> int list \<Rightarrow> nat \<Rightarrow> bool" where
  "table_ok p next n \<longleftrightarrow>
     length next = length p \<and> (p \<noteq> [] \<longrightarrow> next ! 0 = -1) \<and>
     (\<forall>i. 0 < i \<and> i \<le> n \<longrightarrow> 0 \<le> next ! i \<and> is_next p i (nat (next ! i)))"

text \<open>The invariant of the loop of \<open>KMP_GetNextVal\<close>.\<close>

definition table_inv :: "wxString \<Rightarrow> nat \<Rightarrow> int \<Rightarrow> int list \<Rightarrow> bool" where
  "table_inv p j k next \<longleftrightarrow>
     j < length p \<and> -1 \<le> k \<and> k < int j \<and> table_ok p next j \<and>
     (0 \<le> k \<longrightarrow> border p j (nat k)) \<and>
     (\<forall>m. nat (k + 1) < m \<and> m \<le> j \<longrightarrow> \<not> border p (Suc j) m)"

text \<open>
  \<open>r\<close> is the offset of the first occurrence of the pattern, or \<open>-1\<close> when the pattern
  does not occur.
\<close>

definition first_occurrence :: "wxString \<Rightarrow> wxString \<Rightarrow> int \<Rightarrow> bool" where
  "first_occurrence text pattern r \<longleftrightarrow>
     (r = -1 \<and> (\<forall>s. \<not> occurs_at text pattern s)) \<or>
     (0 \<le> r \<and> occurs_at text pattern (nat r) \<and> (\<forall>s<nat r. \<not> occurs_at text pattern s))"

text \<open>The invariant of the loop of \<open>KMP_Find\<close>.\<close>

definition find_inv :: "wxString \<Rightarrow> wxString \<Rightarrow> nat \<Rightarrow> int \<Rightarrow> bool" where
  "find_inv t p i j \<longleftrightarrow>
     -1 \<le> j \<and> j \<le> int (length p) \<and> j \<le> int i \<and> i \<le> length t \<and>
     (\<forall>x. int x < j \<longrightarrow> t ! (i - nat j + x) = p ! x) \<and>
     (\<forall>s. int s < int i - j \<longrightarrow> \<not> occurs_at t p s)"
section \<open>Properties of the inline member functions\<close>

text \<open>
  Claim C8. When the current character is a line feed, \<open>IsBackslashBeforeEOL\<close> reports an
  escaped line break for both line-ending styles: it returns true when the preceding
  character is a backslash (LF style), and also when the preceding character is a carriage
  return whose own predecessor is a backslash (CRLF style); it returns true in no other
  case. The reads of the one or two preceding characters are in range, so the function
  returns a value.
\<close>

theorem IsBackslashBeforeEOL_LF_and_CRLF:
  assumes "CurrentChar s = Some (CHR 0x0A)"
  shows "(PreviousChar s = Some (CHR 0x5C) \<longrightarrow> IsBackslashBeforeEOL s = Some True)
       \<and> (PreviousChar s = Some (CHR 0x0D) \<and> m_TokenIndex s \<ge> 2
            \<and> GetChar (m_Buffer s) (m_TokenIndex s - 2) = Some (CHR 0x5C)
          \<longrightarrow> IsBackslashBeforeEOL s = Some True)
       \<and> (\<exists>b. IsBackslashBeforeEOL s = Some b)
       \<and> (IsBackslashBeforeEOL s = Some True \<longleftrightarrow>
            PreviousChar s = Some (CHR 0x5C)
            \<or> (PreviousChar s = Some (CHR 0x0D) \<and> m_TokenIndex s \<ge> 2
                \<and> GetChar (m_Buffer s) (m_TokenIndex s - 2) = Some (CHR 0x5C)))"
proof -
  from assms have inr: "m_TokenIndex s < length (m_Buffer s)"
    by (auto simp: CurrentChar_def GetChar_def split: if_splits)
  then have ex: "\<exists>b. IsBackslashBeforeEOL s = Some b"
    by (auto simp: IsBackslashBeforeEOL_def PreviousChar_def GetChar_def)
  have iff: "IsBackslashBeforeEOL s = Some True \<longleftrightarrow>
            PreviousChar s = Some (CHR 0x5C)
            \<or> (PreviousChar s = Some (CHR 0x0D) \<and> m_TokenIndex s \<ge> 2
                \<and> GetChar (m_Buffer s) (m_TokenIndex s - 2) = Some (CHR 0x5C))"
    using inr
    by (auto simp: IsBackslashBeforeEOL_def PreviousChar_def GetChar_def split: if_splits)
  from ex iff show ?thesis by blast
qed

theorem IsBackslashBeforeEOL_LF_and_CRLF_witness:
  "IsBackslashBeforeEOL ((InitFromBuffer Map.empty [CHR ''a'', CHR 0x5C, CHR 0x0A] [] 1)
      \<lparr>m_TokenIndex := 2\<rparr>) = Some True
   \<and> IsBackslashBeforeEOL ((InitFromBuffer Map.empty [CHR ''a'', CHR 0x5C, CHR 0x0D, CHR 0x0A] [] 1)
      \<lparr>m_TokenIndex := 3\<rparr>) = Some True"
proof -
  let ?lf = "(InitFromBuffer Map.empty [CHR ''a'', CHR 0x5C, CHR 0x0A] [] 1)\<lparr>m_TokenIndex := 2\<rparr>"
  let ?crlf = "(InitFromBuffer Map.empty [CHR ''a'', CHR 0x5C, CHR 0x0D, CHR 0x0A] [] 1)
      \<lparr>m_TokenIndex := 3\<rparr>"
  have c1: "CurrentChar ?lf = Some (CHR 0x0A)"
    by (simp add: CurrentChar_def GetChar_def InitFromBuffer_def BaseInit_def)
  have p1: "PreviousChar ?lf = Some (CHR 0x5C)"
    by (simp add: PreviousChar_def GetChar_def InitFromBuffer_def BaseInit_def)
  have c2: "CurrentChar ?crlf = Some (CHR 0x0A)"
    by (simp add: CurrentChar_def GetChar_def InitFromBuffer_def BaseInit_def)
  have p2: "PreviousChar ?crlf = Some (CHR 0x0D) \<and> m_TokenIndex ?crlf \<ge> 2
      \<and> GetChar (m_Buffer ?crlf) (m_TokenIndex ?crlf - 2) = Some (CHR 0x5C)"
    by (simp add: PreviousChar_def GetChar_def InitFromBuffer_def BaseInit_def)
  from IsBackslashBeforeEOL_LF_and_CRLF [OF c1] p1
  have "IsBackslashBeforeEOL ?lf = Some True" by blast
  moreover from IsBackslashBeforeEOL_LF_and_CRLF [OF c2] p2
  have "IsBackslashBeforeEOL ?crlf = Some True" by blast
  ultimately show ?thesis by blast
qed

text \<open>
  Claim C9. \<open>SaveNestingLevel\<close> followed by \<open>RestoreNestingLevel\<close> restores the
  brace-nesting counter exactly: after the save and any sequence of later assignments
  to \<open>m_NestLevel\<close>, the restore makes \<open>GetNestingLevel\<close> equal to the value it had at
  the moment of the save.
\<close>

theorem Save_Restore_NestingLevel:
  "GetNestingLevel (RestoreNestingLevel
      (foldl (\<lambda>t n. t\<lparr>m_NestLevel := n\<rparr>) (SaveNestingLevel s) levels))
   = GetNestingLevel s"
proof -
  have kept: "m_SavedNestingLevel (foldl (\<lambda>t n. t\<lparr>m_NestLevel := n\<rparr>) t levels)
        = m_SavedNestingLevel t" for t
    by (induction levels arbitrary: t) simp_all
  show ?thesis
    by (simp add: GetNestingLevel_def RestoreNestingLevel_def SaveNestingLevel_def kept)
qed

text \<open>
  Claim C10. \<open>IsSkippingUnwantedTokens\<close> returns true if and only if the state equals
  exactly \<open>tsSkipUnWanted\<close>, the bitwise or of \<open>tsSkipEqual\<close>, \<open>tsSkipQuestion\<close> and
  \<open>tsSkipSubScrip\<close>. For a state that contains those bits plus others, in particular
  \<open>tsTemplateArgument\<close>, it returns false: the check is an equality, not a mask test.
\<close>

theorem IsSkippingUnwantedTokens_is_equality:
  "(IsSkippingUnwantedTokens s \<longleftrightarrow> m_State s = tsSkipEqual OR tsSkipQuestion OR tsSkipSubScrip)
   \<and> (m_State s AND tsSkipUnWanted = tsSkipUnWanted \<and> m_State s \<noteq> tsSkipUnWanted
        \<longrightarrow> \<not> IsSkippingUnwantedTokens s)
   \<and> tsTemplateArgument AND tsSkipUnWanted = tsSkipUnWanted
   \<and> tsTemplateArgument = tsSkipUnWanted OR tsSingleAngleBrace
   \<and> \<not> IsSkippingUnwantedTokens (SetState tsTemplateArgument s)"
  by (simp add: IsSkippingUnwantedTokens_def SetState_def tsSkipUnWanted_def
      tsTemplateArgument_def tsSkipEqual_def tsSkipQuestion_def tsSkipSubScrip_def
      tsSingleAngleBrace_def)

theorem IsSkippingUnwantedTokens_is_equality_witness:
  "IsSkippingUnwantedTokens (SetState tsSkipUnWanted (BaseInit Map.empty))
   \<and> \<not> IsSkippingUnwantedTokens (SetState (tsSkipUnWanted OR tsReadRawExpression) (BaseInit Map.empty))
   \<and> \<not> IsSkippingUnwantedTokens (SetState tsTemplateArgument (BaseInit Map.empty))"
proof -
  let ?a = "SetState tsSkipUnWanted (BaseInit Map.empty)"
  let ?b = "SetState (tsSkipUnWanted OR tsReadRawExpression) (BaseInit Map.empty)"
  have a: "m_State ?a = tsSkipEqual OR tsSkipQuestion OR tsSkipSubScrip"
    by (simp add: SetState_def tsSkipUnWanted_def)
  have b: "m_State ?b AND tsSkipUnWanted = tsSkipUnWanted \<and> m_State ?b \<noteq> tsSkipUnWanted"
    by (simp add: SetState_def tsSkipUnWanted_def tsSkipEqual_def tsSkipQuestion_def
        tsSkipSubScrip_def tsReadRawExpression_def)
  from IsSkippingUnwantedTokens_is_equality [of ?a] a
  have "IsSkippingUnwantedTokens ?a" by blast
  moreover from IsSkippingUnwantedTokens_is_equality [of ?b] b
  have "\<not> IsSkippingUnwantedTokens ?b" by blast
  moreover from IsSkippingUnwantedTokens_is_equality [of "BaseInit Map.empty"]
  have "\<not> IsSkippingUnwantedTokens (SetState tsTemplateArgument (BaseInit Map.empty))" by blast
  ultimately show ?thesis by blast
qed


section \<open>Correctness of the KMP search\<close>

lemma border_extend:
  "border p j k \<Longrightarrow> j < length p \<Longrightarrow> p ! k = p ! j \<Longrightarrow> border p (Suc j) (Suc k)"
  by (auto simp: border_def less_Suc_eq)

lemma border_shrink:
  assumes "border p (Suc j) (Suc m)"
  shows "border p j m" and "p ! m = p ! j"
  using assms by (auto simp: border_def)

lemma border_trans:
  assumes "border p j k" "border p k k'"
  shows "border p j k'"
proof -
  have "p ! x = p ! (j - k' + x)" if "x < k'" for x
  proof -
    from assms that have "p ! x = p ! (k - k' + x)" by (auto simp: border_def)
    also from assms that have "k - k' + x < k" by (auto simp: border_def)
    with assms have "p ! (k - k' + x) = p ! (j - k + (k - k' + x))" by (auto simp: border_def)
    also from assms have "j - k + (k - k' + x) = j - k' + x" by (auto simp: border_def)
    finally show ?thesis .
  qed
  with assms show ?thesis by (auto simp: border_def)
qed

lemma border_restrict:
  assumes "border p j k" "border p j m" "m \<le> k"
  shows "border p k m"
proof -
  have "p ! x = p ! (k - m + x)" if "x < m" for x
  proof -
    from assms that have "k - m + x < k" by (auto simp: border_def)
    with assms have "p ! (k - m + x) = p ! (j - k + (k - m + x))" by (auto simp: border_def)
    also from assms have "j - k + (k - m + x) = j - m + x" by (auto simp: border_def)
    also from assms that have "p ! (j - m + x) = p ! x" by (auto simp: border_def)
    finally show ?thesis by simp
  qed
  with assms show ?thesis by (auto simp: border_def)
qed


lemma table_inv_advance:
  assumes inv: "table_inv p j k next" and more: "j + 1 < length p"
    and eq: "k = -1 \<or> p ! j = p ! nat k"
  shows "table_inv p (j + 1) (k + 1) (next[j + 1 := k + 1])"
proof -
  from inv have k: "-1 \<le> k" "k < int j" and jl: "j < length p"
    and tab: "table_ok p next j"
    and bord: "0 \<le> k \<Longrightarrow> border p j (nat k)"
    and maxi: "\<And>m. nat (k + 1) < m \<Longrightarrow> m \<le> j \<Longrightarrow> \<not> border p (Suc j) m"
    by (auto simp: table_inv_def)
  have b1: "border p (Suc j) (nat (k + 1))"
  proof (cases "k = -1")
    case True
    with jl show ?thesis by (simp add: border_def)
  next
    case False
    with k eq have "0 \<le> k" "p ! nat k = p ! j" by auto
    with bord jl have "border p (Suc j) (Suc (nat k))" by (auto intro: border_extend)
    with \<open>0 \<le> k\<close> show ?thesis by (simp add: nat_add_distrib)
  qed
  have nx: "is_next p (Suc j) (nat (k + 1))"
    unfolding is_next_def using b1 k maxi by auto
  have tab': "table_ok p (next[j + 1 := k + 1]) (j + 1)"
    using tab nx k more unfolding table_ok_def
    by (auto simp: nth_list_update)
  have maxi': "\<not> border p (Suc (j + 1)) m" if "nat (k + 1 + 1) < m" "m \<le> j + 1" for m
  proof
    assume b: "border p (Suc (j + 1)) m"
    from that k obtain m' where m': "m = Suc m'" by (cases m) auto
    with b have "border p (Suc j) m'" by (auto dest: border_shrink)
    moreover from that m' k have "nat (k + 1) < m'" "m' < Suc j" by auto
    ultimately show False using nx by (auto simp: is_next_def)
  qed
  show ?thesis
    unfolding table_inv_def using more k tab' b1 maxi' by auto
qed

lemma table_inv_fallback:
  assumes inv: "table_inv p j k next" and ne: "k \<noteq> -1" "p ! j \<noteq> p ! nat k"
  shows "table_inv p j (next ! nat k) next \<and> next ! nat k < k"
proof -
  from inv ne have k: "0 \<le> k" "k < int j" and jl: "j < length p"
    and tab: "table_ok p next j"
    and bord: "border p j (nat k)"
    and maxi: "\<And>m. nat (k + 1) < m \<Longrightarrow> m \<le> j \<Longrightarrow> \<not> border p (Suc j) m"
    by (auto simp: table_inv_def)
  let ?k' = "next ! nat k"
  have pos: "0 \<le> ?k' \<and> is_next p (nat k) (nat ?k')" if "0 < k"
  proof -
    from that k have "0 < nat k \<and> nat k \<le> j" by auto
    with tab show ?thesis unfolding table_ok_def by blast
  qed
  then have nx: "0 < k \<Longrightarrow> is_next p (nat k) (nat ?k')" by blast
  have k0: "?k' = -1" if "k = 0"
    using tab jl that by (auto simp: table_ok_def)
  have k': "-1 \<le> ?k'" "?k' < k"
  proof -
    show "-1 \<le> ?k'"
    proof (cases "k = 0")
      case True
      with k0 show ?thesis by simp
    next
      case False
      with k pos show ?thesis by auto
    qed
    show "?k' < k"
    proof (cases "k = 0")
      case True
      with k0 show ?thesis by simp
    next
      case False
      with k pos have "0 \<le> ?k'" "is_next p (nat k) (nat ?k')" by auto
      then show ?thesis by (auto simp: is_next_def)
    qed
  qed
  have bord': "border p j (nat ?k')" if "0 \<le> ?k'"
  proof -
    from that k0 k have "0 < k" by (cases "k = 0") auto
    from nx [OF this] have "border p (nat k) (nat ?k')" by (simp add: is_next_def)
    with bord show ?thesis by (rule border_trans)
  qed
  have maxi': "\<not> border p (Suc j) m" if m: "nat (?k' + 1) < m" "m \<le> j" for m
  proof
    assume b: "border p (Suc j) m"
    from m obtain m' where m': "m = Suc m'" by (cases m) auto
    from b m' have bm: "border p j m'" and ch: "p ! m' = p ! j" by (auto dest: border_shrink)
    have "m \<le> nat (k + 1)"
    proof (rule ccontr)
      assume "\<not> m \<le> nat (k + 1)"
      then have "nat (k + 1) < m" by simp
      from maxi [OF this] m b show False by simp
    qed
    with k m' have "m' \<le> nat k" by auto
    moreover from ch ne have "m' \<noteq> nat k" by auto
    ultimately have lt: "m' < nat k" by simp
    with bord bm have bk: "border p (nat k) m'" by (auto intro: border_restrict)
    from lt have "0 < k" by auto
    from nx [OF this] have "\<And>x. nat ?k' < x \<Longrightarrow> x < nat k \<Longrightarrow> \<not> border p (nat k) x"
      by (auto simp: is_next_def)
    moreover from m m' pos [OF \<open>0 < k\<close>] have "nat ?k' < m'" by auto
    ultimately show False using bk lt by blast
  qed
  show ?thesis
    unfolding table_inv_def using jl k k' tab bord' maxi' by auto
qed

lemma KMP_GetNextVal_loop_correct:
  assumes "table_inv p j k next"
  shows "\<exists>next'. KMP_GetNextVal_loop p j k next = Some next' \<and> table_ok p next' (length p - 1)"
  using assms
proof (induction "nat (2 * (int (length p) - int j) + k + 1)" arbitrary: j k "next" rule: less_induct)
  case less
  note inv = \<open>table_inv p j k next\<close>
  from inv have k: "-1 \<le> k" "k < int j" and jl: "j < length p"
    and tab: "table_ok p next j"
    by (auto simp: table_inv_def)
  show ?case
  proof (cases "j + 1 < length p")
    case False
    with jl have "j = length p - 1" by simp
    with tab False show ?thesis
      by (subst KMP_GetNextVal_loop.simps) auto
  next
    case more: True
    show ?thesis
    proof (cases "k = -1 \<or> p ! j = p ! nat k")
      case True
      from table_inv_advance [OF inv more True]
      have inv': "table_inv p (j + 1) (k + 1) (next[j + 1 := k + 1])" .
      have "nat (2 * (int (length p) - int (j + 1)) + (k + 1) + 1)
            < nat (2 * (int (length p) - int j) + k + 1)"
        using more k by auto
      from less.hyps [OF this inv'] obtain next' where
        "KMP_GetNextVal_loop p (j + 1) (k + 1) (next[j + 1 := k + 1]) = Some next'"
        "table_ok p next' (length p - 1)" by blast
      moreover from tab more have "ArraySet next (j + 1) (k + 1) = Some (next[j + 1 := k + 1])"
        by (simp add: ArraySet_def table_ok_def)
      moreover from True k jl have "k = -1 \<or> GetChar p j = GetChar p (nat k)"
        by (auto simp: GetChar_def)
      ultimately show ?thesis using more
        by (subst KMP_GetNextVal_loop.simps) auto
    next
      case False
      then have ne: "k \<noteq> -1" "p ! j \<noteq> p ! nat k" by auto
      from table_inv_fallback [OF inv ne]
      have inv': "table_inv p j (next ! nat k) next" and dec: "next ! nat k < k" by auto
      from inv' have "-1 \<le> next ! nat k" by (simp add: table_inv_def)
      with dec have "nat (2 * (int (length p) - int j) + next ! nat k + 1)
            < nat (2 * (int (length p) - int j) + k + 1)"
        using jl by auto
      from less.hyps [OF this inv'] obtain next' where
        "KMP_GetNextVal_loop p j (next ! nat k) next = Some next'"
        "table_ok p next' (length p - 1)" by blast
      moreover from tab k jl ne have "ArrayGet next k = Some (next ! nat k)"
        by (auto simp: ArrayGet_def table_ok_def)
      moreover from ne k jl have "\<not> (k = -1 \<or> GetChar p j = GetChar p (nat k))"
        by (auto simp: GetChar_def)
      ultimately show ?thesis using more
        by (subst KMP_GetNextVal_loop.simps) auto
    qed
  qed
qed

lemma KMP_GetNextVal_correct:
  "\<exists>next. KMP_GetNextVal p = Some next \<and> table_ok p next (length p - 1)"
proof (cases "p = []")
  case True
  then show ?thesis by (simp add: KMP_GetNextVal_def table_ok_def)
next
  case False
  then have "table_inv p 0 (-1) ((replicate (length p) 0)[0 := -1])"
    by (auto simp: table_inv_def table_ok_def)
  from KMP_GetNextVal_loop_correct [OF this] False show ?thesis
    by (simp add: KMP_GetNextVal_def)
qed


lemma find_inv_advance:
  assumes inv: "find_inv t p i j" and more: "i < length t" "j < int (length p)"
    and eq: "j = -1 \<or> t ! i = p ! nat j"
  shows "find_inv t p (i + 1) (j + 1)"
proof -
  from inv have j: "-1 \<le> j" "j \<le> int i"
    and mt: "\<And>x. int x < j \<Longrightarrow> t ! (i - nat j + x) = p ! x"
    and no: "\<And>s. int s < int i - j \<Longrightarrow> \<not> occurs_at t p s"
    by (auto simp: find_inv_def)
  have mt': "t ! (i + 1 - nat (j + 1) + x) = p ! x" if "int x < j + 1" for x
  proof (cases "int x < j")
    case True
    from mt [OF True] j True show ?thesis by (simp add: nat_add_distrib)
  next
    case False
    with that have x: "int x = j" by simp
    with eq have "t ! i = p ! x" by auto
    moreover from x j have "i + 1 - nat (j + 1) + x = i" by auto
    ultimately show ?thesis by simp
  qed
  show ?thesis
    unfolding find_inv_def using j more mt' no by auto
qed

lemma find_inv_fallback:
  assumes inv: "find_inv t p i j" and more: "i < length t" "j < int (length p)"
    and ne: "j \<noteq> -1" "t ! i \<noteq> p ! nat j"
    and tab: "table_ok p next (length p - 1)"
  shows "find_inv t p i (next ! nat j) \<and> next ! nat j < j"
proof -
  from inv ne have j: "0 \<le> j" "j \<le> int i"
    and mt: "\<And>x. int x < j \<Longrightarrow> t ! (i - nat j + x) = p ! x"
    and no: "\<And>s. int s < int i - j \<Longrightarrow> \<not> occurs_at t p s"
    by (auto simp: find_inv_def)
  let ?j' = "next ! nat j"
  have no_here: "\<not> occurs_at t p (i - nat j)"
  proof
    assume "occurs_at t p (i - nat j)"
    then have "\<forall>x<length p. t ! (i - nat j + x) = p ! x" by (simp add: occurs_at_def)
    moreover from more j have "nat j < length p" by auto
    ultimately have "t ! (i - nat j + nat j) = p ! nat j" by blast
    with j ne show False by auto
  qed
  show ?thesis
  proof (cases "j = 0")
    case True
    with tab more have j': "?j' = -1" by (auto simp: table_ok_def)
    have "\<not> occurs_at t p s" if "int s < int i - ?j'" for s
    proof (cases "s = i")
      case True
      with no_here \<open>j = 0\<close> show ?thesis by simp
    next
      case False
      with that j' True have "int s < int i - j" by simp
      then show ?thesis by (rule no)
    qed
    with j' True more show ?thesis by (auto simp: find_inv_def)
  next
    case False
    with j more have "0 < nat j \<and> nat j \<le> length p - 1" by auto
    with tab have j'0: "0 \<le> ?j'" and nx: "is_next p (nat j) (nat ?j')"
      unfolding table_ok_def by blast+
    from nx have lt: "nat ?j' < nat j" and bord: "border p (nat j) (nat ?j')"
      and maxi: "\<And>m. nat ?j' < m \<Longrightarrow> m < nat j \<Longrightarrow> \<not> border p (nat j) m"
      by (auto simp: is_next_def)
    have mt': "t ! (i - nat ?j' + x) = p ! x" if "int x < ?j'" for x
    proof -
      from that j'0 have x: "x < nat ?j'" by auto
      with lt have "int (nat j - nat ?j' + x) < j" by auto
      from mt [OF this] have "t ! (i - nat j + (nat j - nat ?j' + x)) = p ! (nat j - nat ?j' + x)" .
      moreover from lt j have "i - nat j + (nat j - nat ?j' + x) = i - nat ?j' + x" by auto
      moreover from bord x have "p ! x = p ! (nat j - nat ?j' + x)" by (auto simp: border_def)
      ultimately show ?thesis by simp
    qed
    have no': "\<not> occurs_at t p s" if s: "int s < int i - ?j'" for s
    proof (cases "int s < int i - j")
      case True
      then show ?thesis by (rule no)
    next
      case ge: False
      show ?thesis
      proof (cases "s = i - nat j")
        case True
        with no_here show ?thesis by simp
      next
        case False
        with ge j have gt: "i - nat j < s" by auto
        define m where "m = i - s"
        from gt s j j'0 lt have m: "nat ?j' < m" "m < nat j" "s = i - m" "m \<le> i"
          by (auto simp: m_def)
        show ?thesis
        proof
          assume occ: "occurs_at t p s"
          have "p ! x = p ! (nat j - m + x)" if "x < m" for x
          proof -
            from that m more have "x < length p" by auto
            with occ have "t ! (s + x) = p ! x" by (auto simp: occurs_at_def)
            moreover from that m have "int (nat j - m + x) < j" by auto
            from mt [OF this] have "t ! (i - nat j + (nat j - m + x)) = p ! (nat j - m + x)" .
            moreover from m j that have "i - nat j + (nat j - m + x) = s + x" by auto
            ultimately show ?thesis by simp
          qed
          with m more have "border p (nat j) m" by (auto simp: border_def)
          with maxi [OF m(1) m(2)] show False by simp
        qed
      qed
    qed
    from lt j'0 j have "?j' < j" by auto
    with j j'0 more mt' no' inv show ?thesis by (auto simp: find_inv_def)
  qed
qed

lemma KMP_Find_loop_correct:
  assumes "find_inv t p i j" and tab: "table_ok p next (length p - 1)"
  shows "\<exists>r. KMP_Find_loop t p next i j = Some r \<and> first_occurrence t p r"
  using assms(1)
proof (induction "nat (2 * (int (length t) - int i) + j + 1)" arbitrary: i j rule: less_induct)
  case less
  note inv = \<open>find_inv t p i j\<close>
  from inv have j: "-1 \<le> j" "j \<le> int (length p)" "j \<le> int i" and il: "i \<le> length t"
    and mt: "\<And>x. int x < j \<Longrightarrow> t ! (i - nat j + x) = p ! x"
    and no: "\<And>s. int s < int i - j \<Longrightarrow> \<not> occurs_at t p s"
    by (auto simp: find_inv_def)
  show ?case
  proof (cases "i < length t \<and> j < int (length p)")
    case False
    show ?thesis
    proof (cases "j = int (length p)")
      case True
      with mt j have "occurs_at t p (i - length p)"
        using il by (auto simp: occurs_at_def)
      moreover from no True j have "\<forall>s<i - length p. \<not> occurs_at t p s" by auto
      moreover from True j have "int i - j = int (i - length p)" by auto
      ultimately have "first_occurrence t p (int i - j)"
        by (auto simp: first_occurrence_def)
      with False True show ?thesis
        by (subst KMP_Find_loop.simps) auto
    next
      case ne: False
      with False j il have fin: "i = length t" "j < int (length p)" by auto
      have "\<not> occurs_at t p s" for s
      proof (cases "int s < int i - j")
        case True
        then show ?thesis by (rule no)
      next
        case False
        with fin have "\<not> s + length p \<le> length t" by auto
        then show ?thesis by (simp add: occurs_at_def)
      qed
      then have "first_occurrence t p (-1)" by (simp add: first_occurrence_def)
      with False ne show ?thesis
        by (subst KMP_Find_loop.simps) auto
    qed
  next
    case more: True
    show ?thesis
    proof (cases "j = -1 \<or> t ! i = p ! nat j")
      case True
      from find_inv_advance [OF inv _ _ True] more
      have inv': "find_inv t p (i + 1) (j + 1)" by simp
      have "nat (2 * (int (length t) - int (i + 1)) + (j + 1) + 1)
            < nat (2 * (int (length t) - int i) + j + 1)"
        using more j by auto
      from less.hyps [OF this inv'] obtain r where
        "KMP_Find_loop t p next (i + 1) (j + 1) = Some r" "first_occurrence t p r" by blast
      moreover from True more j have "j = -1 \<or> GetChar t i = GetChar p (nat j)"
        by (auto simp: GetChar_def)
      ultimately show ?thesis using more
        by (subst KMP_Find_loop.simps) auto
    next
      case False
      then have ne: "j \<noteq> -1" "t ! i \<noteq> p ! nat j" by auto
      from find_inv_fallback [OF inv _ _ ne tab] more
      have inv': "find_inv t p i (next ! nat j)" and dec: "next ! nat j < j" by auto
      from inv' have "-1 \<le> next ! nat j" by (simp add: find_inv_def)
      with dec have "nat (2 * (int (length t) - int i) + next ! nat j + 1)
            < nat (2 * (int (length t) - int i) + j + 1)"
        using more by auto
      from less.hyps [OF this inv'] obtain r where
        "KMP_Find_loop t p next i (next ! nat j) = Some r" "first_occurrence t p r" by blast
      moreover from tab more ne j have "ArrayGet next j = Some (next ! nat j)"
        by (auto simp: ArrayGet_def table_ok_def)
      moreover from ne more j have "\<not> (j = -1 \<or> GetChar t i = GetChar p (nat j))"
        by (auto simp: GetChar_def)
      ultimately show ?thesis using more
        by (subst KMP_Find_loop.simps) auto
    qed
  qed
qed

lemma KMP_Find_first:
  "\<exists>r. KMP_Find t p (int (length p)) = Some r \<and> first_occurrence t p r"
proof -
  from KMP_GetNextVal_correct [of p] obtain "next" where
    nx: "KMP_GetNextVal p = Some next" and tab: "table_ok p next (length p - 1)" by blast
  have "find_inv t p 0 0" by (simp add: find_inv_def)
  from KMP_Find_loop_correct [OF this tab] nx show ?thesis
    by (simp add: KMP_Find_def)
qed

lemma match_here_iff: "match_here t p \<longleftrightarrow> occurs_at t p 0"
proof (induction t p rule: match_here.induct)
  case (1 tx)
  then show ?case by (simp add: occurs_at_def)
next
  case (2 p ps)
  then show ?case by (simp add: occurs_at_def)
next
  case (3 c cs p ps)
  have "occurs_at (c # cs) (p # ps) 0 \<longleftrightarrow> c = p \<and> occurs_at cs ps 0"
    by (auto simp: occurs_at_def nth_Cons split: nat.splits)
  with 3 show ?case by simp
qed

lemma occurs_at_Cons_Suc: "occurs_at (c # cs) p (Suc s) \<longleftrightarrow> occurs_at cs p s"
  by (simp add: occurs_at_def)

lemma naive_scan_first:
  "(naive_scan t p k = -1 \<and> (\<forall>s. \<not> occurs_at t p s)) \<or>
   (\<exists>s. naive_scan t p k = int (k + s) \<and> occurs_at t p s \<and> (\<forall>u. u < s \<longrightarrow> \<not> occurs_at t p u))"
proof (induction t arbitrary: k)
  case Nil
  have "\<not> occurs_at [] p s" if "\<not> occurs_at [] p 0" for s
    using that by (auto simp: occurs_at_def)
  then show ?case by (auto simp: match_here_iff)
next
  case (Cons c cs)
  show ?case
  proof (cases "match_here (c # cs) p")
    case True
    then have "naive_scan (c # cs) p k = int (k + 0) \<and> occurs_at (c # cs) p 0"
      by (simp add: match_here_iff)
    then show ?thesis by blast
  next
    case False
    then have no0: "\<not> occurs_at (c # cs) p 0" by (simp add: match_here_iff)
    from False have eq: "naive_scan (c # cs) p k = naive_scan cs p (k + 1)" by simp
    from Cons.IH [of "k + 1"] show ?thesis
    proof
      assume a: "naive_scan cs p (k + 1) = -1 \<and> (\<forall>s. \<not> occurs_at cs p s)"
      have "\<not> occurs_at (c # cs) p s" for s
        using a no0 by (cases s) (auto simp: occurs_at_Cons_Suc)
      with a eq show ?thesis by simp
    next
      assume "\<exists>s. naive_scan cs p (k + 1) = int (k + 1 + s) \<and> occurs_at cs p s \<and>
                (\<forall>u. u < s \<longrightarrow> \<not> occurs_at cs p u)"
      then obtain s where s: "naive_scan cs p (k + 1) = int (k + 1 + s)" "occurs_at cs p s"
        "\<forall>u. u < s \<longrightarrow> \<not> occurs_at cs p u" by blast
      have "\<not> occurs_at (c # cs) p s'" if "s' < Suc s" for s'
        using that s no0 by (cases s') (auto simp: occurs_at_Cons_Suc)
      with s eq have "naive_scan (c # cs) p k = int (k + Suc s) \<and> occurs_at (c # cs) p (Suc s)
          \<and> (\<forall>u. u < Suc s \<longrightarrow> \<not> occurs_at (c # cs) p u)"
        by (simp add: occurs_at_Cons_Suc)
      then show ?thesis by blast
    qed
  qed
qed

lemma naive_find_first_occurrence: "first_occurrence t p (naive_find t p)"
  using naive_scan_first [of t p 0]
  by (auto simp: first_occurrence_def naive_find_def)

lemma first_occurrence_unique:
  assumes "first_occurrence t p r" "first_occurrence t p r'"
  shows "r = r'"
proof -
  have "nat r = nat r'" if "0 \<le> r" "0 \<le> r'"
    using assms that by (auto simp: first_occurrence_def intro: linorder_cases [of "nat r" "nat r'"])
  with assms show ?thesis
    by (auto simp: first_occurrence_def)
qed


text \<open>
  Claim C7. For every text and pattern, \<open>KMP_Find\<close> returns the offset of the first
  occurrence of the pattern in the text, which is the result of the naive left-to-right
  substring scan, and it returns the sentinel \<open>-1\<close> exactly when the pattern does not
  occur. In particular both loops return and never read or write outside an array.
\<close>

theorem KMP_Find_eq_naive_scan:
  "KMP_Find text pattern (int (length pattern)) = Some (naive_find text pattern)
   \<and> first_occurrence text pattern (naive_find text pattern)
   \<and> (KMP_Find text pattern (int (length pattern)) = Some (-1)
        \<longleftrightarrow> (\<forall>s. \<not> occurs_at text pattern s))"
proof -
  have fo: "first_occurrence text pattern (naive_find text pattern)"
    by (rule naive_find_first_occurrence)
  from KMP_Find_first [of "text" pattern] obtain r where
    r: "KMP_Find text pattern (int (length pattern)) = Some r" "first_occurrence text pattern r"
    by blast
  with fo have eq: "r = naive_find text pattern" by (auto dest: first_occurrence_unique)
  from r have "r = -1 \<longleftrightarrow> (\<forall>s. \<not> occurs_at text pattern s)"
    by (auto simp: first_occurrence_def)
  with r eq fo show ?thesis by simp
qed

theorem KMP_Find_eq_naive_scan_witness:
  "KMP_Find ''xxabcabcabdyy'' ''abcabd'' (int (length ''abcabd'')) = Some 5
   \<and> occurs_at ''xxabcabcabdyy'' ''abcabd'' 5
   \<and> KMP_Find ''abcabcabd'' ''abe'' (int (length ''abe'')) = Some (-1)
   \<and> \<not> occurs_at ''abcabcabd'' ''abe'' 3"
proof -
  have n1: "naive_find ''xxabcabcabdyy'' ''abcabd'' = 5"
    by (simp add: naive_find_def)
  have n2: "naive_find ''abcabcabd'' ''abe'' = -1"
    by (simp add: naive_find_def)
  from KMP_Find_eq_naive_scan [of "''xxabcabcabdyy''" "''abcabd''"] n1
  have "KMP_Find ''xxabcabcabdyy'' ''abcabd'' (int (length ''abcabd'')) = Some 5
      \<and> occurs_at ''xxabcabcabdyy'' ''abcabd'' 5"
    by (simp add: first_occurrence_def)
  moreover from KMP_Find_eq_naive_scan [of "''abcabcabd''" "''abe''"] n2
  have "KMP_Find ''abcabcabd'' ''abe'' (int (length ''abe'')) = Some (-1)
      \<and> \<not> occurs_at ''abcabcabd'' ''abe'' 3"
    by auto
  ultimately show ?thesis by blast
qed

section \<open>Splitting the arguments of a function-like macro usage\<close>

lemma CurrentChar_at:
  assumes "m_Buffer s = pre @ c # rest" "m_BufferLen s = length (m_Buffer s)"
    "m_TokenIndex s = length pre"
  shows "CurrentChar s = Some c" and "\<not> IsEOF s" and "NotEOF s"
  using assms by (simp_all add: CurrentChar_def GetChar_def IsEOF_def NotEOF_def)

lemma MoveToNextChar_at:
  assumes "m_Buffer s = pre @ c # rest" "m_BufferLen s = length (m_Buffer s)"
    "m_TokenIndex s = length pre"
  shows "snd (MoveToNextChar s) = advance s [c]"
  using assms CurrentChar_at [OF assms]
  by (simp add: MoveToNextChar_def advance_def Let_def)

lemma advance_simps:
  "m_Buffer (advance s tx) = m_Buffer s"
  "m_BufferLen (advance s tx) = m_BufferLen s"
  "m_TokenIndex (advance s tx) = m_TokenIndex s + length tx"
  "m_LineNumber (advance s tx) = m_LineNumber s + of_nat (count_list tx (CHR 0x0A))"
  by (simp_all add: advance_def)

lemma advance_advance: "advance (advance s a) b = advance s (a @ b)"
  by (simp add: advance_def add.assoc)

lemma advance_Nil: "advance s [] = s"
  by (simp add: advance_def)

lemma SkipWhiteSpace_loop_spaces:
  assumes "m_Buffer s = pre @ ws @ c # rest" "m_BufferLen s = length (m_Buffer s)"
    "m_TokenIndex s = length pre" "\<forall>x\<in>set ws. wxIsspace x"
    "\<not> wxIsspace c" "c \<noteq> CHR 0x5C"
  shows "SkipWhiteSpace_loop s = advance s ws"
  using assms
proof (induction ws arbitrary: pre s)
  case Nil
  then have "CurrentChar s = Some c"
    using CurrentChar_at(1) [of s pre c rest] by simp
  with Nil have "SkipWhiteSpace_loop s = s"
    by (subst SkipWhiteSpace_loop.simps) (simp add: IsLineContinuation_def)
  then show ?case by (simp add: advance_Nil)
next
  case (Cons w ws)
  from Cons.prems have at: "m_Buffer s = pre @ w # (ws @ c # rest)"
    "m_BufferLen s = length (m_Buffer s)" "m_TokenIndex s = length pre"
    by simp_all
  note cw = CurrentChar_at [OF at]
  have s': "snd (MoveToNextChar s) = advance s [w]"
    by (rule MoveToNextChar_at [OF at])
  from Cons.prems cw have "SkipWhiteSpace_loop s = SkipWhiteSpace_loop (advance s [w])"
    by (subst SkipWhiteSpace_loop.simps) (simp add: s')
  also have "\<dots> = advance (advance s [w]) ws"
    by (rule Cons.IH [where pre = "pre @ [w]"])
       (use Cons.prems in \<open>simp_all add: advance_simps\<close>)
  finally show ?case by (simp add: advance_advance)
qed

lemma SkipWhiteSpaceAndComments_spaces:
  assumes "m_Buffer s = pre @ ws @ c # rest" "m_BufferLen s = length (m_Buffer s)"
    "m_TokenIndex s = length pre" "\<forall>x\<in>set ws. wxIsspace x"
    "\<not> wxIsspace c" "c \<noteq> CHR 0x5C" "c \<noteq> CHR ''/''"
  shows "SkipWhiteSpaceAndComments s = advance s ws"
proof -
  let ?s1 = "advance s ws"
  from assms have ws: "SkipWhiteSpace_loop s = ?s1"
    by (intro SkipWhiteSpace_loop_spaces)
  have at1: "m_Buffer ?s1 = (pre @ ws) @ c # rest" "m_BufferLen ?s1 = length (m_Buffer ?s1)"
    "m_TokenIndex ?s1 = length (pre @ ws)"
    using assms by (simp_all add: advance_simps)
  from CurrentChar_at(1) [OF at1] assms have cm: "SkipComment ?s1 = (False, ?s1)"
    by (simp add: SkipComment_def)
  have ws1: "SkipWhiteSpace_loop ?s1 = ?s1"
    using SkipWhiteSpace_loop_spaces [of ?s1 "pre @ ws" "[]" c rest] at1 assms
    by (simp add: advance_Nil)
  have stay: "SkipWhiteSpaceAndComments ?s1 = ?s1"
    by (subst SkipWhiteSpaceAndComments.simps) (simp add: SkipWhiteSpace_def Let_def ws1 cm)
  show ?thesis
    by (subst SkipWhiteSpaceAndComments.simps) (simp add: SkipWhiteSpace_def Let_def ws cm stay)
qed

lemma SplitArguments_loop_arg_text:
  assumes "m_Buffer t = pre @ a @ rest" "m_BufferLen t = length (m_Buffer t)"
    "m_TokenIndex t = length pre" "arg_text inner a"
  shows "SplitArguments_loop (inner @ [q]) piece results t =
         SplitArguments_loop [q] (piece @ a) results (advance t a)"
  using assms
proof (induction a arbitrary: inner piece pre t)
  case Nil
  then show ?case by (simp add: advance_Nil)
next
  case (Cons c cs)
  from Cons.prems have at: "m_Buffer t = pre @ c # (cs @ rest)"
    "m_BufferLen t = length (m_Buffer t)" "m_TokenIndex t = length pre"
    by simp_all
  note cc = CurrentChar_at [OF at]
  have mv: "snd (MoveToNextChar t) = advance t [c]"
    by (rule MoveToNextChar_at [OF at])
  let ?t' = "advance t [c]"
  have at': "m_Buffer ?t' = (pre @ [c]) @ cs @ rest" "m_BufferLen ?t' = length (m_Buffer ?t')"
    "m_TokenIndex ?t' = length (pre @ [c])"
    using at by (simp_all add: advance_simps)
  have "\<exists>inner'. arg_text inner' cs \<and>
      SplitArguments_loop (inner @ [q]) piece results t =
      SplitArguments_loop (inner' @ [q]) (piece @ [c]) results ?t'"
  proof -
    consider (lp) "c = CHR ''(''" | (lb) "c = CHR ''[''"
      | (cl) "c = CHR '')'' \<or> c = CHR '']''"
      | (cm) "c = CHR '',''"
      | (ot) "c \<noteq> CHR ''(''" "c \<noteq> CHR ''[''" "c \<noteq> CHR '')''" "c \<noteq> CHR '']''" "c \<noteq> CHR '',''"
      by blast
    then show ?thesis
    proof cases
      case lp
      with Cons.prems(4) have "arg_text (CHR '')'' # inner) cs" by simp
      moreover from lp cc have "SplitArguments_loop (inner @ [q]) piece results t =
          SplitArguments_loop ((CHR '')'' # inner) @ [q]) (piece @ [c]) results ?t'"
        by (subst SplitArguments_loop.simps) (simp add: mv)
      ultimately show ?thesis by blast
    next
      case lb
      with Cons.prems(4) have "arg_text (CHR '']'' # inner) cs" by simp
      moreover from lb cc have "SplitArguments_loop (inner @ [q]) piece results t =
          SplitArguments_loop ((CHR '']'' # inner) @ [q]) (piece @ [c]) results ?t'"
        by (subst SplitArguments_loop.simps) (simp add: mv)
      ultimately show ?thesis by blast
    next
      case cl
      with Cons.prems(4) obtain outer where inner: "inner = c # outer" and ok: "arg_text outer cs"
        by (auto split: list.splits)
      from cl cc inner have "SplitArguments_loop (inner @ [q]) piece results t =
          SplitArguments_loop (outer @ [q]) (piece @ [c]) results ?t'"
        by (subst SplitArguments_loop.simps) (auto simp: mv)
      with ok show ?thesis by blast
    next
      case cm
      with Cons.prems(4) have ne: "inner \<noteq> []" and ok: "arg_text inner cs" by simp_all
      from ne have "length (inner @ [q]) \<noteq> 1" by (cases inner) simp_all
      with cm cc have "SplitArguments_loop (inner @ [q]) piece results t =
          SplitArguments_loop (inner @ [q]) (piece @ [c]) results ?t'"
        by (subst SplitArguments_loop.simps) (simp add: mv)
      with ok show ?thesis by blast
    next
      case ot
      with Cons.prems(4) have ok: "arg_text inner cs" by simp
      from ot cc have "SplitArguments_loop (inner @ [q]) piece results t =
          SplitArguments_loop (inner @ [q]) (piece @ [c]) results ?t'"
        by (subst SplitArguments_loop.simps) (simp add: mv)
      with ok show ?thesis by blast
    qed
  qed
  then obtain inner' where ok: "arg_text inner' cs"
    and step: "SplitArguments_loop (inner @ [q]) piece results t =
      SplitArguments_loop (inner' @ [q]) (piece @ [c]) results ?t'" by blast
  note step
  also have "SplitArguments_loop (inner' @ [q]) (piece @ [c]) results ?t' =
      SplitArguments_loop [q] ((piece @ [c]) @ cs) results (advance ?t' cs)"
    by (rule Cons.IH [OF at' ok])
  finally show ?case by (simp add: advance_advance)
qed

lemma SplitArguments_loop_args:
  assumes "args \<noteq> []" "\<forall>a\<in>set args. arg_text [] a"
    "m_Buffer t = pre @ join_args args @ CHR '')'' # post"
    "m_BufferLen t = length (m_Buffer t)" "m_TokenIndex t = length pre"
  shows "SplitArguments_loop [CHR '')''] [] results t =
         (True, results @ split_result args, advance t (join_args args @ '')''))"
  using assms
proof (induction args arbitrary: pre t results rule: join_args.induct)
  case 1
  then show ?case by simp
next
  case (2 a)
  then have ok: "arg_text [] a" by simp
  from 2 have buf: "m_Buffer t = pre @ a @ (CHR '')'' # post)" by simp
  have "SplitArguments_loop ([] @ [CHR '')'']) [] results t =
      SplitArguments_loop [CHR '')''] ([] @ a) results (advance t a)"
    by (rule SplitArguments_loop_arg_text [OF buf "2.prems"(4,5) ok])
  moreover
  let ?t1 = "advance t a"
  have at1: "m_Buffer ?t1 = (pre @ a) @ CHR '')'' # post" "m_BufferLen ?t1 = length (m_Buffer ?t1)"
    "m_TokenIndex ?t1 = length (pre @ a)"
    using 2 by (simp_all add: advance_simps)
  note cc = CurrentChar_at [OF at1]
  have "SplitArguments_loop [CHR '')''] a results ?t1 =
      (True, results @ split_result [a], advance ?t1 '')'')"
    using cc by (subst SplitArguments_loop.simps) (simp add: MoveToNextChar_at [OF at1])
  ultimately show ?case by (simp add: advance_advance)
next
  case (3 a b bs)
  then have ok: "arg_text [] a" by simp
  from 3 have buf: "m_Buffer t = pre @ a @ (CHR '','' # join_args (b # bs) @ CHR '')'' # post)"
    by simp
  have "SplitArguments_loop ([] @ [CHR '')'']) [] results t =
      SplitArguments_loop [CHR '')''] ([] @ a) results (advance t a)"
    by (rule SplitArguments_loop_arg_text [OF buf "3.prems"(4,5) ok])
  moreover
  let ?t1 = "advance t a"
  have at1: "m_Buffer ?t1 = (pre @ a) @ CHR '','' # (join_args (b # bs) @ CHR '')'' # post)"
    "m_BufferLen ?t1 = length (m_Buffer ?t1)" "m_TokenIndex ?t1 = length (pre @ a)"
    using 3 by (simp_all add: advance_simps)
  note cc = CurrentChar_at [OF at1]
  let ?t2 = "advance ?t1 '',''"
  have "SplitArguments_loop [CHR '')''] a results ?t1 =
      SplitArguments_loop [CHR '')''] [] (results @ [Trim a]) ?t2"
    using cc by (subst SplitArguments_loop.simps) (simp add: MoveToNextChar_at [OF at1])
  moreover have "SplitArguments_loop [CHR '')''] [] (results @ [Trim a]) ?t2 =
      (True, (results @ [Trim a]) @ split_result (b # bs),
       advance ?t2 (join_args (b # bs) @ '')''))"
    by (rule "3.IH" [where pre = "pre @ a @ '',''"])
       (use "3.prems" in \<open>simp_all add: advance_simps\<close>)
  ultimately show ?case by (simp add: advance_advance)
qed



text \<open>
  A closing bracket where the closing parenthesis is expected makes the argument list
  malformed: the arguments are not found.
\<close>

lemma SplitArguments_mismatched_closer:
  "fst (SplitArguments ((InitFromBuffer Map.empty ''F(a], b)'' [] 1)\<lparr>m_TokenIndex := 1\<rparr>))
   = False"
proof -
  let ?s = "(InitFromBuffer Map.empty ''F(a], b)'' [] 1)\<lparr>m_TokenIndex := 1\<rparr>"
  have "SkipWhiteSpaceAndComments ?s = advance ?s []"
    by (rule SkipWhiteSpaceAndComments_spaces [where pre = "''F''" and c = "CHR ''(''"
          and rest = "''a], b)''"])
       (simp_all add: InitFromBuffer_def BaseInit_def wxIsspace_def)
  then show ?thesis
    by (simp add: SplitArguments_def advance_Nil SplitArguments_loop.simps CurrentChar_def
        GetChar_def MoveToNextChar_def IsEOF_def NotEOF_def Let_def InitFromBuffer_def
        BaseInit_def)
qed


text \<open>
  Claim C4. \<open>SplitArguments\<close>, applied to the usage \<^verbatim>\<open>F(1, (2,3), 4)\<close> of a function-like
  macro with the cursor at the opening parenthesis or on whitespace before it, produces
  exactly the three arguments \<^verbatim>\<open>1\<close>, \<^verbatim>\<open>(2,3)\<close> and \<^verbatim>\<open>4\<close> and leaves the cursor behind
  the closing parenthesis, whatever text precedes and follows the usage. In general, for
  every argument list whose argument texts are balanced in parentheses and brackets and
  have their commas inside an inner pair only, the results are exactly those argument
  texts, each without the whitespace around it: a comma nested inside parentheses or
  brackets, at any depth, is not treated as an argument separator.
\<close>

theorem SplitArguments_nested_commas:
  assumes "m_Buffer s = pre @ ws @ ''('' @ join_args args @ '')'' @ post"
    and "m_BufferLen s = length (m_Buffer s)"
    and "m_TokenIndex s = length pre"
    and "\<forall>x\<in>set ws. wxIsspace x"
    and "args \<noteq> []"
    and "\<forall>a\<in>set args. arg_text [] a"
  shows "SplitArguments s =
      (True, split_result args,
       s\<lparr>m_LineNumber :=
            m_LineNumber s + of_nat (count_list (ws @ join_args args) (CHR 0x0A)),
         m_TokenIndex := length pre + length ws + length (join_args args) + 2\<rparr>)
    \<and> (args = [''1'', '' (2,3)'', '' 4''] \<longrightarrow>
        SplitArguments s =
          (True, [''1'', ''(2,3)'', ''4''],
           s\<lparr>m_LineNumber := m_LineNumber s + of_nat (count_list ws (CHR 0x0A)),
             m_TokenIndex := length pre + length ws + 13\<rparr>))"
proof -
  let ?s1 = "advance s ws"
  from assms have skip: "SkipWhiteSpaceAndComments s = ?s1"
    by (intro SkipWhiteSpaceAndComments_spaces [where c = "CHR ''(''"
          and rest = "join_args args @ '')'' @ post"])
       (simp_all add: wxIsspace_def)
  have at1: "m_Buffer ?s1 = (pre @ ws) @ CHR ''('' # (join_args args @ '')'' @ post)"
    "m_BufferLen ?s1 = length (m_Buffer ?s1)" "m_TokenIndex ?s1 = length (pre @ ws)"
    using assms by (simp_all add: advance_simps)
  note c1 = CurrentChar_at(1) [OF at1]
  have mv: "snd (MoveToNextChar ?s1) = advance ?s1 ''(''"
    by (rule MoveToNextChar_at [OF at1])
  let ?s2 = "advance ?s1 ''(''"
  have "SplitArguments_loop [CHR '')''] [] [] ?s2 =
      (True, [] @ split_result args, advance ?s2 (join_args args @ '')''))"
    by (rule SplitArguments_loop_args [where pre = "pre @ ws @ ''(''" and post = post])
       (use assms in \<open>simp_all add: advance_simps\<close>)
  with skip c1 mv have "SplitArguments s =
      (True, split_result args, advance s (ws @ ''('' @ join_args args @ '')''))"
    by (simp add: SplitArguments_def advance_advance)
  then have gen: "SplitArguments s =
      (True, split_result args,
       s\<lparr>m_LineNumber :=
            m_LineNumber s + of_nat (count_list (ws @ join_args args) (CHR 0x0A)),
         m_TokenIndex := length pre + length ws + length (join_args args) + 2\<rparr>)"
    using assms(3) by (simp add: advance_def)
  moreover have "SplitArguments s =
          (True, [''1'', ''(2,3)'', ''4''],
           s\<lparr>m_LineNumber := m_LineNumber s + of_nat (count_list ws (CHR 0x0A)),
             m_TokenIndex := length pre + length ws + 13\<rparr>)"
    if "args = [''1'', '' (2,3)'', '' 4'']"
    using gen unfolding that by (simp add: Trim_def wxIsspace_def)
  ultimately show ?thesis by blast
qed

theorem SplitArguments_nested_commas_witness:
  "SplitArguments ((InitFromBuffer Map.empty ''F(1, (2,3), 4)'' [] 1)\<lparr>m_TokenIndex := 1\<rparr>) =
     (True, [''1'', ''(2,3)'', ''4''],
      (InitFromBuffer Map.empty ''F(1, (2,3), 4)'' [] 1)\<lparr>m_TokenIndex := 14\<rparr>)
   \<and> SplitArguments ((InitFromBuffer Map.empty ''F  (1, (2,3), 4);'' [] 1)\<lparr>m_TokenIndex := 1\<rparr>) =
     (True, [''1'', ''(2,3)'', ''4''],
      (InitFromBuffer Map.empty ''F  (1, (2,3), 4);'' [] 1)\<lparr>m_TokenIndex := 16\<rparr>)
   \<and> SplitArguments
       ((InitFromBuffer Map.empty ''G(a[1,2], g(h(1),2), 3) x'' [] 1)\<lparr>m_TokenIndex := 1\<rparr>) =
     (True, [''a[1,2]'', ''g(h(1),2)'', ''3''],
      (InitFromBuffer Map.empty ''G(a[1,2], g(h(1),2), 3) x'' [] 1)\<lparr>m_TokenIndex := 23\<rparr>)"
proof -
  let ?a = "(InitFromBuffer Map.empty ''F(1, (2,3), 4)'' [] 1)\<lparr>m_TokenIndex := 1\<rparr>"
  let ?b = "(InitFromBuffer Map.empty ''F  (1, (2,3), 4);'' [] 1)\<lparr>m_TokenIndex := 1\<rparr>"
  let ?c = "(InitFromBuffer Map.empty ''G(a[1,2], g(h(1),2), 3) x'' [] 1)\<lparr>m_TokenIndex := 1\<rparr>"
  let ?args = "[''1'', '' (2,3)'', '' 4'']"
  let ?args' = "[''a[1,2]'', '' g(h(1),2)'', '' 3'']"
  have a: "m_Buffer ?a = ''F'' @ [] @ ''('' @ join_args ?args @ '')'' @ []"
    "m_BufferLen ?a = length (m_Buffer ?a)" "m_TokenIndex ?a = length ''F''"
    "\<forall>x\<in>set []. wxIsspace x" "?args \<noteq> []" "\<forall>a\<in>set ?args. arg_text [] a"
    by (simp_all add: InitFromBuffer_def BaseInit_def)
  have b: "m_Buffer ?b = ''F'' @ ''  '' @ ''('' @ join_args ?args @ '')'' @ '';''"
    "m_BufferLen ?b = length (m_Buffer ?b)" "m_TokenIndex ?b = length ''F''"
    "\<forall>x\<in>set ''  ''. wxIsspace x" "?args \<noteq> []" "\<forall>a\<in>set ?args. arg_text [] a"
    by (simp_all add: InitFromBuffer_def BaseInit_def wxIsspace_def)
  have c: "m_Buffer ?c = ''G'' @ [] @ ''('' @ join_args ?args' @ '')'' @ '' x''"
    "m_BufferLen ?c = length (m_Buffer ?c)" "m_TokenIndex ?c = length ''G''"
    "\<forall>x\<in>set []. wxIsspace x" "?args' \<noteq> []" "\<forall>a\<in>set ?args'. arg_text [] a"
    by (simp_all add: InitFromBuffer_def BaseInit_def)
  from SplitArguments_nested_commas [OF a]
  have "SplitArguments ?a = (True, [''1'', ''(2,3)'', ''4''], ?a\<lparr>m_TokenIndex := 14\<rparr>)"
    by (simp add: Trim_def wxIsspace_def)
  moreover from SplitArguments_nested_commas [OF b]
  have "SplitArguments ?b = (True, [''1'', ''(2,3)'', ''4''], ?b\<lparr>m_TokenIndex := 16\<rparr>)"
    by (simp add: Trim_def wxIsspace_def)
  moreover from SplitArguments_nested_commas [OF c]
  have "SplitArguments ?c =
      (True, [''a[1,2]'', ''g(h(1),2)'', ''3''], ?c\<lparr>m_TokenIndex := 23\<rparr>)"
    by (simp add: Trim_def wxIsspace_def)
  ultimately show ?thesis by simp
qed


end
